theory Spec2Isabelle
  imports Complex_Main
begin

section \<open>String formatting used by the query template\<close>

text \<open>
  The notebook builds its query with \<^verbatim>\<open>str.format\<close>: \<^verbatim>\<open>{y:d}\<close> prints an
  integer in decimal, \<^verbatim>\<open>{m:02d}\<close> prints it sign-aware and zero-filled to a
  minimum width of two, \<^verbatim>\<open>{term:s}\<close> inserts a string as it is.
\<close>

definition digit_char :: "nat \<Rightarrow> char" where
  "digit_char n = ''0123456789'' ! n"

fun str_nat :: "nat \<Rightarrow> string" where
  "str_nat n = (if n < 10 then [digit_char n] else str_nat (n div 10) @ [digit_char (n mod 10)])"

declare str_nat.simps [simp del]

definition zfill :: "nat \<Rightarrow> string \<Rightarrow> string" where
  "zfill width s = replicate (width - length s) (CHR ''0'') @ s"

definition format_d :: "int \<Rightarrow> string" where
  "format_d i = (if i < 0 then CHR ''-'' # str_nat (nat (- i)) else str_nat (nat i))"

definition format_02d :: "int \<Rightarrow> string" where
  "format_02d i =
     (if i < 0 then CHR ''-'' # zfill (2 - 1) (str_nat (nat (- i))) else zfill 2 (str_nat (nat i)))"

definition q_format :: "string \<Rightarrow> int \<Rightarrow> int \<Rightarrow> string \<Rightarrow> string" where
  \<open>q_format term y m db =
     ''full:"'' @ term @ ''"  pubdate:'' @ format_d y @ ''-'' @ format_02d m
       @ '' database:"'' @ db @ ''"''\<close>

section \<open>Dates, rows, exceptions and the outside world\<close>

text \<open>
  \<^verbatim>\<open>datetime.date(y, m, d)\<close> raises \<^verbatim>\<open>ValueError\<close> outside the proleptic Gregorian
  calendar of years 1 to 9999.
\<close>

datatype date = Date int int int

datatype exn = KeyError nat | ValueError | FileNotFoundError | APIResponseError

definition is_leap :: "int \<Rightarrow> bool" where
  "is_leap y = (y mod 4 = 0 \<and> (y mod 100 \<noteq> 0 \<or> y mod 400 = 0))"

definition days_in_month :: "int \<Rightarrow> int \<Rightarrow> int" where
  "days_in_month y m =
     (if m = 2 then (if is_leap y then 29 else 28)
      else if m = 4 \<or> m = 6 \<or> m = 9 \<or> m = 11 then 30 else 31)"

definition datetime_date :: "int \<Rightarrow> int \<Rightarrow> int \<Rightarrow> exn + date" where
  "datetime_date y m d =
     (if 1 \<le> y \<and> y \<le> 9999 \<and> 1 \<le> m \<and> m \<le> 12 \<and> 1 \<le> d \<and> d \<le> days_in_month y m
      then Inr (Date y m d) else Inl ValueError)"

text \<open>
  One row of the cached table: the two CSV columns \<^verbatim>\<open>date\<close> and \<^verbatim>\<open>count\<close>.
  A data frame, a CSV file and the dictionary \<^verbatim>\<open>d = df.to_dict()\<close> are all
  the list of their rows, indexed from 0; \<^verbatim>\<open>d["count"][i]\<close> raises \<^verbatim>\<open>KeyError\<close>
  when the table has no row \<open>i\<close>.  Dates are kept abstract: writing a date to CSV,
  reading it back and \<^verbatim>\<open>pd.to_datetime\<close> all denote the same calendar day.
  This is \<^verbatim>\<open>pd.to_datetime\<close> as pandas 3 has it, where every date that
  \<^verbatim>\<open>datetime.date\<close> accepts converts.  Before pandas 3 the conversion is to
  nanoseconds and raises for a date outside 1677-09-21 to 2262-04-11, so under such a
  pandas a returned table is promised only for years from 1678 to 2261.
\<close>

record row =
  date :: date
  count :: int

text \<open>
  What a run does to its surroundings is recorded in order: a search sent to the
  service, a call of \<^verbatim>\<open>time.sleep\<close>, a CSV file written.
\<close>

datatype event = Query string | Sleep real | Write string "row list"

record world =
  files :: "string \<rightharpoonup> row list"
  trace :: "event list"

fun queries :: "event list \<Rightarrow> string list" where
  "queries [] = []"
| "queries (Query q # es) = q # queries es"
| "queries (Sleep s # es) = queries es"
| "queries (Write f t # es) = queries es"

fun sleeps :: "event list \<Rightarrow> real list" where
  "sleeps [] = []"
| "sleeps (Query q # es) = sleeps es"
| "sleeps (Sleep s # es) = s # sleeps es"
| "sleeps (Write f t # es) = sleeps es"

text \<open>
  The search service is outside the program.  \<^verbatim>\<open>len(list(ads.SearchQuery(q=..., rows=1000)))\<close>
  is one request; it either raises or yields a number of documents.  Its answer may
  depend on the query and on every query sent before.
\<close>

type_synonym service = "string list \<Rightarrow> string \<Rightarrow> exn + nat"

text \<open>
  The file store is one directory of named tables, and writing to it succeeds.  In the
  program \<^verbatim>\<open>df.to_csv(cache_file)\<close> raises \<^verbatim>\<open>OSError\<close> when the file cannot be
  created, as when the term or the database puts the path in a directory that does
  not exist.  The write of the model is the write of the program for the names that
  \<open>writable_path\<close> describes below; a property that promises a result for a cache
  file that is not there yet assumes such a name.
\<close>

definition to_csv :: "string \<Rightarrow> row list \<Rightarrow> world \<Rightarrow> world" where
  "to_csv f t w = w\<lparr>files := (files w)(f \<mapsto> t), trace := trace w @ [Write f t]\<rparr>"

definition read_csv :: "string \<Rightarrow> world \<Rightarrow> exn + row list" where
  "read_csv f w = (case files w f of None \<Rightarrow> Inl FileNotFoundError | Some t \<Rightarrow> Inr t)"

definition path_exists :: "string \<Rightarrow> world \<Rightarrow> bool" where
  "path_exists f w = (files w f \<noteq> None)"

section \<open>The cached fetch \<^verbatim>\<open>get_df\<close>\<close>

definition cache_file_name :: "string \<Rightarrow> string \<Rightarrow> string" where
  "cache_file_name term db = term @ ''_'' @ db @ ''.csv''"

text \<open>
  The body of the \<^verbatim>\<open>for i, (y, m) in enumerate(dates)\<close> loop, from index \<open>i\<close> on.
  An exception leaves the loop at once with the world as it then is.  The progress bar
  and the printed remaining request budget are not part of the world.
\<close>

fun loop :: "service \<Rightarrow> string \<Rightarrow> string \<Rightarrow> real \<Rightarrow> nat \<Rightarrow> (int \<times> int) list
    \<Rightarrow> row list \<Rightarrow> world \<Rightarrow> (exn + row list) \<times> world" where
  "loop srv term db sleep i [] d w = (Inr d, w)"
| "loop srv term db sleep i ((y, m) # rest) d w =
     (if length d \<le> i then (Inl (KeyError i), w)
      else if 0 \<le> count (d ! i) then loop srv term db sleep (Suc i) rest d w
      else
        let q = q_format term y m db;
            w1 = w\<lparr>trace := trace w @ [Query q]\<rparr>
        in case srv (queries (trace w)) q of
             Inl e \<Rightarrow> (Inl e, w1)
           | Inr c \<Rightarrow>
               let d1 = d[i := (d ! i)\<lparr>count := int c\<rparr>]
               in case datetime_date y m 1 of
                    Inl e \<Rightarrow> (Inl e, w1)
                  | Inr dt \<Rightarrow>
                      let d2 = d1[i := (d1 ! i)\<lparr>date := dt\<rparr>]
                      in if sleep < 0 then (Inl ValueError, w1)
                         else loop srv term db sleep (Suc i) rest d2
                                (w1\<lparr>trace := trace w1 @ [Sleep sleep]\<rparr>))"

definition get_df :: "service \<Rightarrow> string \<Rightarrow> string \<Rightarrow> (int \<times> int) list \<Rightarrow> bool \<Rightarrow> real
    \<Rightarrow> world \<Rightarrow> (exn + row list) \<times> world" where
  "get_df srv term db dates overwrite sleep w =
     (let cache_file = cache_file_name term db;
          ndates = length dates;
          w0 = (if \<not> path_exists cache_file w \<or> overwrite
                then to_csv cache_file
                       (replicate ndates \<lparr>date = Date 1984 1 1, count = - 1\<rparr>) w
                else w)
      in case read_csv cache_file w0 of
           Inl e \<Rightarrow> (Inl e, w0)
         | Inr df \<Rightarrow>
             (case (if \<not> list_all (\<lambda>r. 0 \<le> count r) df
                    then loop srv term db sleep 0 dates df w0
                    else (Inr df, w0)) of
                (Inl e, w1) \<Rightarrow> (Inl e, w1)
              | (Inr d, w1) \<Rightarrow> (Inr d, to_csv cache_file d w1)))"

section \<open>The grid of year-month pairs\<close>

definition range_py :: "int \<Rightarrow> int \<Rightarrow> int list" where
  "range_py start stop = [start..stop - 1]"

definition years :: "int list" where
  "years = range_py 1991 (2018 + 1)"

definition months :: "int list" where
  "months = range_py 1 (12 + 1)"

definition dates :: "(int \<times> int) list" where
  "dates = drop 1 (filter (\<lambda>(y, m). y < 2018 \<or> (y = 2018 \<and> m < 3)) (List.product years months))"

definition ndates :: nat where
  "ndates = length dates"

section \<open>Vocabulary of the properties\<close>

text \<open>A record is resolved when its count is not negative, pending otherwise.\<close>

definition resolved :: "row \<Rightarrow> bool" where
  "resolved r = (0 \<le> count r)"

definition blank_row :: row where
  "blank_row = \<lparr>date = Date 1984 1 1, count = - 1\<rparr>"

text \<open>
  The queries one expects for a table laid against a period list: one for each
  pending record, in period order.
\<close>

fun pending_queries :: "string \<Rightarrow> string \<Rightarrow> (int \<times> int) list \<Rightarrow> row list \<Rightarrow> string list" where
  "pending_queries term db ((y, m) # ps) (r # rs) =
     (if resolved r then [] else [q_format term y m db]) @ pending_queries term db ps rs"
| "pending_queries term db [] rs = []"
| "pending_queries term db ps [] = []"

text \<open>
  A name the working directory takes as a new file on the file systems in common
  use: no path separator, no NUL byte, at most 255 bytes.
\<close>

definition writable_path :: "string \<Rightarrow> bool" where
  "writable_path f = (CHR ''/'' \<notin> set f \<and> CHR 0x00 \<notin> set f \<and> length f \<le> 255)"

text \<open>A period that names a month of the calendar \<^verbatim>\<open>datetime.date\<close> supports.\<close>

fun valid_period :: "int \<times> int \<Rightarrow> bool" where
  "valid_period (y, m) = (1 \<le> y \<and> y \<le> 9999 \<and> 1 \<le> m \<and> m \<le> 12)"

text \<open>A service that answers every request with a number of documents.\<close>

definition service_ok :: "service \<Rightarrow> bool" where
  "service_ok srv = (\<forall>h q. \<exists>c. srv h q = Inr c)"

text \<open>
  \<open>spaced s ok es\<close>: in the event sequence \<open>es\<close>, every search is preceded, since
  the search before it, by a sleep of at least \<open>s\<close>; \<open>ok\<close> says whether that
  already holds on entry.
\<close>

fun spaced :: "real \<Rightarrow> bool \<Rightarrow> event list \<Rightarrow> bool" where
  "spaced s ok [] = True"
| "spaced s ok (Query q # es) = (ok \<and> spaced s False es)"
| "spaced s ok (Sleep t # es) = spaced s (ok \<or> s \<le> t) es"
| "spaced s ok (Write f t # es) = spaced s ok es"

text \<open>Chronological order of year-month pairs.\<close>

fun chrono :: "int \<times> int \<Rightarrow> int \<times> int \<Rightarrow> bool" where
  "chrono (y, m) (y', m') = (y < y' \<or> (y = y' \<and> m < m'))"

text \<open>
  Decimal numerals, said without the printing functions: the digits of a string and
  their value; \<open>decimal_numeral ds n\<close> when \<open>ds\<close> is the numeral of \<open>n\<close>, digits
  only and no leading zero; \<open>signed_decimal s i\<close> when \<open>s\<close> is the numeral of the
  integer \<open>i\<close>, with a minus sign in front exactly when \<open>i\<close> is negative.
\<close>

definition is_digit :: "char \<Rightarrow> bool" where
  "is_digit c = (c \<in> set ''0123456789'')"

definition digit_val :: "char \<Rightarrow> nat" where
  "digit_val c = of_char c - 48"

definition dec_value :: "string \<Rightarrow> nat" where
  "dec_value s = foldl (\<lambda>a c. 10 * a + digit_val c) 0 s"

definition decimal_numeral :: "string \<Rightarrow> nat \<Rightarrow> bool" where
  "decimal_numeral ds n =
     (ds \<noteq> [] \<and> list_all is_digit ds \<and> (hd ds \<noteq> CHR ''0'' \<or> ds = ''0'') \<and> dec_value ds = n)"

definition signed_decimal :: "string \<Rightarrow> int \<Rightarrow> bool" where
  "signed_decimal s i =
     (if i < 0 then s \<noteq> [] \<and> hd s = CHR ''-'' \<and> decimal_numeral (tl s) (nat (- i))
      else decimal_numeral s (nat i))"

text \<open>
  Two services for concrete runs: one that always finds \<open>c\<close> documents, and one
  that answers the first request it ever gets and raises on every later one.
\<close>

definition answering :: "nat \<Rightarrow> service" where
  "answering c h q = Inr c"

definition failing_after_first :: service where
  "failing_after_first h q = (if h = [] then Inr 5 else Inl APIResponseError)"

section \<open>Facts about the loop\<close>

lemma datetime_date_first:
  "datetime_date y m 1 = Inr dt \<Longrightarrow> dt = Date y m 1 \<and> valid_period (y, m)"
  by (auto simp: datetime_date_def split: if_splits)

lemma datetime_date_valid: "valid_period (y, m) \<Longrightarrow> datetime_date y m 1 = Inr (Date y m 1)"
  by (simp add: datetime_date_def days_in_month_def)

lemma queries_append: "queries (es @ fs) = queries es @ queries fs"
  by (induction es rule: queries.induct) simp_all

lemma row_update_both: "(r::row)\<lparr>count := c, date := dt\<rparr> = \<lparr>date = dt, count = c\<rparr>"
  by (cases r) simp

lemma loop_Cons_Inr:
  assumes "loop srv term db s i ((y, m) # ps) d w = (Inr d', w')"
  shows "i < length d"
    and "resolved (d ! i) \<Longrightarrow> loop srv term db s (Suc i) ps d w = (Inr d', w')"
    and "\<not> resolved (d ! i) \<Longrightarrow>
           \<exists>c. srv (queries (trace w)) (q_format term y m db) = Inr c \<and> valid_period (y, m) \<and> 0 \<le> s \<and>
               loop srv term db s (Suc i) ps (d[i := \<lparr>date = Date y m 1, count = int c\<rparr>])
                 (w\<lparr>trace := trace w @ [Query (q_format term y m db), Sleep s]\<rparr>) = (Inr d', w')"
  using assms
  by (auto simp: Let_def resolved_def row_update_both split: sum.splits if_splits dest!: datetime_date_first)

lemma loop_frame:
  "loop srv term db s i ps d w = (Inr d', w') \<Longrightarrow> j < i \<Longrightarrow> d' ! j = d ! j"
proof (induction ps arbitrary: i d w)
  case Nil
  then show ?case by simp
next
  case (Cons p ps)
  obtain y m where p: "p = (y, m)" by (cases p)
  note step = loop_Cons_Inr [OF Cons.prems(1) [unfolded p]]
  show ?case
  proof (cases "resolved (d ! i)")
    case True
    from Cons.IH [OF step(2) [OF True]] Cons.prems(2) show ?thesis by simp
  next
    case False
    from step(3) [OF False] obtain c where
      "loop srv term db s (Suc i) ps (d[i := \<lparr>date = Date y m 1, count = int c\<rparr>])
         (w\<lparr>trace := trace w @ [Query (q_format term y m db), Sleep s]\<rparr>) = (Inr d', w')"
      by blast
    from Cons.IH [OF this, of ] Cons.prems(2) show ?thesis by simp
  qed
qed


lemma pending_queries_step:
  "i < length d \<Longrightarrow>
   pending_queries term db ((y, m) # ps) (drop i d) =
     (if resolved (d ! i) then [] else [q_format term y m db]) @ pending_queries term db ps (drop (Suc i) d)"
  by (simp flip: Cons_nth_drop_Suc)

lemma loop_queries:
  "loop srv term db s i ps d w = (Inr d', w') \<Longrightarrow>
   queries (trace w') = queries (trace w) @ pending_queries term db ps (drop i d)"
proof (induction ps arbitrary: i d w)
  case Nil
  then show ?case by simp
next
  case (Cons p ps)
  obtain y m where p: "p = (y, m)" by (cases p)
  note step = loop_Cons_Inr [OF Cons.prems(1) [unfolded p]]
  show ?case
  proof (cases "resolved (d ! i)")
    case True
    from Cons.IH [OF step(2) [OF True]] True step(1) show ?thesis
      unfolding p by (simp add: pending_queries_step del: pending_queries.simps)
  next
    case False
    from step(3) [OF False] obtain c where
      "loop srv term db s (Suc i) ps (d[i := \<lparr>date = Date y m 1, count = int c\<rparr>])
         (w\<lparr>trace := trace w @ [Query (q_format term y m db), Sleep s]\<rparr>) = (Inr d', w')"
      by blast
    from Cons.IH [OF this] False step(1) show ?thesis
      unfolding p by (simp add: pending_queries_step queries_append del: pending_queries.simps)
  qed
qed

lemma loop_at:
  "loop srv term db s i ps d w = (Inr d', w') \<Longrightarrow> k < length ps \<Longrightarrow>
   (resolved (d ! (i + k)) \<longrightarrow> d' ! (i + k) = d ! (i + k)) \<and>
   (\<not> resolved (d ! (i + k)) \<longrightarrow>
      (\<exists>c. srv (queries (trace w) @ pending_queries term db (take k ps) (drop i d))
              (q_format term (fst (ps ! k)) (snd (ps ! k)) db) = Inr c \<and>
           d' ! (i + k) = \<lparr>date = Date (fst (ps ! k)) (snd (ps ! k)) 1, count = int c\<rparr>))"
proof (induction ps arbitrary: i d w k)
  case Nil
  then show ?case by simp
next
  case (Cons p ps)
  obtain y m where p: "p = (y, m)" by (cases p)
  note step = loop_Cons_Inr [OF Cons.prems(1) [unfolded p]]
  show ?case
  proof (cases "resolved (d ! i)")
    case True
    note rec = step(2) [OF True]
    show ?thesis
    proof (cases k)
      case 0
      with loop_frame [OF rec, of i] True show ?thesis by simp
    next
      case (Suc k')
      with Cons.prems(2) have "k' < length ps" by simp
      from Cons.IH [OF rec this] True step(1) show ?thesis
        unfolding p Suc by (simp add: pending_queries_step del: pending_queries.simps)
    qed
  next
    case False
    from step(3) [OF False] obtain c where
      c: "srv (queries (trace w)) (q_format term y m db) = Inr c" and
      rec: "loop srv term db s (Suc i) ps (d[i := \<lparr>date = Date y m 1, count = int c\<rparr>])
         (w\<lparr>trace := trace w @ [Query (q_format term y m db), Sleep s]\<rparr>) = (Inr d', w')"
      by blast
    show ?thesis
    proof (cases k)
      case 0
      with loop_frame [OF rec, of i] False step(1) c show ?thesis
        unfolding p by simp
    next
      case (Suc k')
      with Cons.prems(2) have "k' < length ps" by simp
      from Cons.IH [OF rec this] False step(1) show ?thesis
        unfolding p Suc by (simp add: pending_queries_step queries_append del: pending_queries.simps)
    qed
  qed
qed

lemma loop_skip:
  "(\<And>k. k < length ps \<Longrightarrow> i + k < length d \<and> resolved (d ! (i + k))) \<Longrightarrow>
   loop srv term db s i ps d w = (Inr d, w)"
proof (induction ps arbitrary: i)
  case Nil
  show ?case by simp
next
  case (Cons p ps)
  obtain y m where p: "p = (y, m)" by (cases p)
  from Cons.prems [of 0] have here: "i < length d" "resolved (d ! i)" by simp_all
  have "loop srv term db s (Suc i) ps d w = (Inr d, w)"
  proof (rule Cons.IH)
    fix k assume "k < length ps"
    with Cons.prems [of "Suc k"] show "Suc i + k < length d \<and> resolved (d ! (Suc i + k))" by simp
  qed
  with here show ?case unfolding p by (simp add: resolved_def)
qed

lemma loop_total:
  "service_ok srv \<Longrightarrow> list_all valid_period ps \<Longrightarrow> 0 \<le> s \<Longrightarrow> i + length ps \<le> length d \<Longrightarrow>
   \<exists>d' w'. loop srv term db s i ps d w = (Inr d', w')"
proof (induction ps arbitrary: i d w)
  case Nil
  show ?case by simp
next
  case (Cons p ps)
  obtain y m where p: "p = (y, m)" by (cases p)
  from Cons.prems(1) obtain c where c: "srv (queries (trace w)) (q_format term y m db) = Inr c"
    unfolding service_ok_def by blast
  from Cons.prems(2) have v: "valid_period (y, m)" "list_all valid_period ps" unfolding p by simp_all
  from Cons.prems(4) have r: "i < length d" "Suc i + length ps \<le> length d" by simp_all
  show ?case
  proof (cases "0 \<le> count (d ! i)")
    case True
    with Cons.IH [OF Cons.prems(1) v(2) Cons.prems(3) r(2), of w] r(1) show ?thesis
      unfolding p by simp
  next
    case False
    have "Suc i + length ps \<le> length (d[i := (d ! i)\<lparr>count := int c, date := Date y m 1\<rparr>])"
      using r(2) by simp
    from Cons.IH [OF Cons.prems(1) v(2) Cons.prems(3) this] False r(1) c Cons.prems(3) datetime_date_valid [OF v(1)]
    show ?thesis unfolding p by (simp add: Let_def)
  qed
qed

lemma spaced_snoc_Write: "spaced s ok (es @ [Write f t]) = spaced s ok es"
  by (induction s ok es rule: spaced.induct) simp_all

lemma sleeps_append: "sleeps (es @ fs) = sleeps es @ sleeps fs"
  by (induction es rule: sleeps.induct) simp_all

lemma loop_trace:
  "loop srv term db s i ps d w = (r, w') \<Longrightarrow>
   \<exists>new. trace w' = trace w @ new \<and> spaced s True new \<and> length (sleeps new) \<le> length (queries new)"
proof (induction ps arbitrary: i d w)
  case Nil
  then show ?case by auto
next
  case (Cons p ps)
  obtain y m where p: "p = (y, m)" by (cases p)
  let ?q = "q_format term y m db"
  consider (stop) "w' = w" | (fail) "w' = w\<lparr>trace := trace w @ [Query ?q]\<rparr>"
    | (skip) "loop srv term db s (Suc i) ps d w = (r, w')"
    | (go) d2 where "loop srv term db s (Suc i) ps d2 (w\<lparr>trace := trace w @ [Query ?q, Sleep s]\<rparr>) = (r, w')"
    using Cons.prems unfolding p by (auto simp: Let_def split: if_splits sum.splits)
  then show ?case
  proof cases
    case stop
    then show ?thesis by simp
  next
    case fail
    then show ?thesis by simp
  next
    case skip
    from Cons.IH [OF this] show ?thesis .
  next
    case go
    from Cons.IH [OF this] obtain new where
      new: "trace w' = (trace w @ [Query ?q, Sleep s]) @ new" "spaced s True new"
        "length (sleeps new) \<le> length (queries new)"
      by auto
    show ?thesis
    proof (intro exI conjI)
      show "trace w' = trace w @ (Query ?q # Sleep s # new)" using new(1) by simp
      show "spaced s True (Query ?q # Sleep s # new)" using new(2) by simp
      show "length (sleeps (Query ?q # Sleep s # new)) \<le> length (queries (Query ?q # Sleep s # new))"
        using new(3) by simp
    qed
  qed
qed

lemma loop_files: "files (snd (loop srv term db s i ps d w)) = files w"
proof (induction ps arbitrary: i d w)
  case Nil
  show ?case by simp
next
  case (Cons p ps)
  obtain y m where p: "p = (y, m)" by (cases p)
  show ?case unfolding p
    by (simp add: Let_def Cons.IH split: sum.splits)
qed

lemma loop_length: "loop srv term db s i ps d w = (Inr d', w') \<Longrightarrow> length d' = length d"
proof (induction ps arbitrary: i d w)
  case Nil
  then show ?case by simp
next
  case (Cons p ps)
  obtain y m where p: "p = (y, m)" by (cases p)
  from Cons.prems show ?case unfolding p
    by (auto simp: Let_def split: sum.splits if_splits dest!: Cons.IH)
qed

lemma loop_in_range:
  "loop srv term db s i ps d w = (Inr d', w') \<Longrightarrow> ps \<noteq> [] \<Longrightarrow> i + length ps \<le> length d"
proof (induction ps arbitrary: i d w)
  case Nil
  then show ?case by simp
next
  case (Cons p ps)
  obtain y m where p: "p = (y, m)" by (cases p)
  show ?case
  proof (cases "ps = []")
    case True
    with Cons.prems show ?thesis unfolding p by (auto split: if_splits)
  next
    case False
    with Cons.prems show ?thesis unfolding p
      by (auto simp: Let_def split: sum.splits if_splits dest!: Cons.IH)
  qed
qed

section \<open>Facts about \<^verbatim>\<open>get_df\<close>\<close>

lemma resolved_blank: "\<not> resolved blank_row"
  by (simp add: resolved_def blank_row_def)

lemma list_all_resolved_blank: "list_all resolved (replicate n blank_row) = (n = 0)"
  by (cases n) (simp_all add: resolved_blank)

lemma get_df_run:
  assumes "get_df srv term db ps ow s w = (r, w')"
  obtains d w0 r1 w1 where
    "files w0 (cache_file_name term db) = Some d"
    "if files w (cache_file_name term db) = None \<or> ow
     then d = replicate (length ps) blank_row \<and> w0 = to_csv (cache_file_name term db) d w
     else w0 = w"
    "(if list_all resolved d then (Inr d, w0) else loop srv term db s 0 ps d w0) = (r1, w1)"
    "case r1 of Inl e \<Rightarrow> r = Inl e \<and> w' = w1
              | Inr t \<Rightarrow> r = Inr t \<and> w' = to_csv (cache_file_name term db) t w1"
proof (cases "files w (cache_file_name term db) = None \<or> ow")
  case True
  let ?d = "replicate (length ps) blank_row"
  let ?w0 = "to_csv (cache_file_name term db) ?d w"
  obtain r1 w1 where
    run: "(if list_all resolved ?d then (Inr ?d, ?w0) else loop srv term db s 0 ps ?d ?w0) = (r1, w1)"
    by (cases "if list_all resolved ?d then (Inr ?d, ?w0) else loop srv term db s 0 ps ?d ?w0") blast
  have f: "files ?w0 (cache_file_name term db) = Some ?d"
    by (simp add: to_csv_def)
  have "get_df srv term db ps ow s w =
          (case (r1, w1) of (Inl e, w1) \<Rightarrow> (Inl e, w1)
                          | (Inr t, w1) \<Rightarrow> (Inr t, to_csv (cache_file_name term db) t w1))"
    unfolding run [symmetric] using True f
    by (auto simp: get_df_def Let_def path_exists_def read_csv_def blank_row_def resolved_def [abs_def])
  with assms have "case r1 of Inl e \<Rightarrow> r = Inl e \<and> w' = w1
              | Inr t \<Rightarrow> r = Inr t \<and> w' = to_csv (cache_file_name term db) t w1"
    by (auto split: sum.splits)
  with that [OF f _ run] True show ?thesis by simp
next
  case False
  then obtain d where d: "files w (cache_file_name term db) = Some d" and ow: "\<not> ow" by auto
  obtain r1 w1 where
    run: "(if list_all resolved d then (Inr d, w) else loop srv term db s 0 ps d w) = (r1, w1)"
    by (cases "if list_all resolved d then (Inr d, w) else loop srv term db s 0 ps d w") blast
  have "get_df srv term db ps ow s w =
          (case (r1, w1) of (Inl e, w1) \<Rightarrow> (Inl e, w1)
                          | (Inr t, w1) \<Rightarrow> (Inr t, to_csv (cache_file_name term db) t w1))"
    unfolding run [symmetric] using d ow
    by (auto simp: get_df_def Let_def path_exists_def read_csv_def resolved_def [abs_def])
  with assms have "case r1 of Inl e \<Rightarrow> r = Inl e \<and> w' = w1
              | Inr t \<Rightarrow> r = Inr t \<and> w' = to_csv (cache_file_name term db) t w1"
    by (auto split: sum.splits)
  with that [OF d _ run] False show ?thesis by simp
qed


lemma queries_to_csv: "queries (trace (to_csv f t w)) = queries (trace w)"
  by (simp add: to_csv_def queries_append)

lemma files_to_csv: "files (to_csv f t w) f = Some t"
  by (simp add: to_csv_def)

lemma to_csv_same:
  "files w f = Some t \<Longrightarrow> to_csv f t w = w\<lparr>trace := trace w @ [Write f t]\<rparr>"
  by (simp add: to_csv_def fun_upd_idem)

lemma loop_resolves:
  assumes "loop srv term db s i ps d w = (Inr d', w')" and "k < length ps"
  shows "i + k < length d' \<and> resolved (d' ! (i + k))"
proof -
  from assms(2) have "ps \<noteq> []" by auto
  from loop_in_range [OF assms(1) this] loop_length [OF assms(1)] assms(2)
  have "i + k < length d'" by simp
  moreover have "resolved (d' ! (i + k))"
  proof (cases "resolved (d ! (i + k))")
    case True
    with loop_at [OF assms] show ?thesis by simp
  next
    case False
    with loop_at [OF assms] obtain c where "count (d' ! (i + k)) = int c" by auto
    then show ?thesis by (simp add: resolved_def)
  qed
  ultimately show ?thesis by simp
qed

lemma pending_queries_blank:
  "length ps \<le> n \<Longrightarrow>
   pending_queries term db ps (replicate n blank_row) = map (\<lambda>(y, m). q_format term y m db) ps"
proof (induction ps arbitrary: n)
  case Nil
  show ?case by simp
next
  case (Cons p ps)
  obtain y m where p: "p = (y, m)" by (cases p)
  from Cons.prems obtain n' where n: "n = Suc n'" "length ps \<le> n'" by (cases n) simp_all
  from Cons.IH [OF n(2)] show ?case unfolding p n(1) by (simp add: resolved_blank)
qed

lemma pending_queries_length:
  "length ps = length rs \<Longrightarrow>
   length (pending_queries term db ps rs) + length (filter resolved rs) = length rs"
proof (induction ps arbitrary: rs)
  case Nil
  then show ?case by simp
next
  case (Cons p ps)
  obtain y m where p: "p = (y, m)" by (cases p)
  from Cons.prems obtain r rs' where rs: "rs = r # rs'" "length ps = length rs'" by (cases rs) simp_all
  from Cons.IH [OF rs(2)] show ?case unfolding p rs(1) by simp
qed

lemma pending_queries_resolved:
  "list_all resolved rs \<Longrightarrow> pending_queries term db ps rs = []"
  by (induction "term" db ps rs rule: pending_queries.induct) simp_all

lemma get_df_total:
  assumes valid: "list_all valid_period ps" and s: "0 \<le> sleep" and srv: "service_ok srv"
    and fit: "\<And>rows. files w (cache_file_name term db) = Some rows \<Longrightarrow> \<not> ow \<Longrightarrow> length ps \<le> length rows"
  obtains tbl w' where "get_df srv term db ps ow sleep w = (Inr tbl, w')"
proof -
  obtain r w' where run: "get_df srv term db ps ow sleep w = (r, w')"
    by (cases "get_df srv term db ps ow sleep w") blast
  show ?thesis
  proof (cases rule: get_df_run [OF run])
    case (1 d w0 r1 w1)
    have "length ps \<le> length d"
    proof (cases "files w (cache_file_name term db) = None \<or> ow")
      case True
      with 1(2) show ?thesis by simp
    next
      case False
      with 1(2) have "w0 = w" by simp
      with 1(1) False fit show ?thesis by simp
    qed
    then have "0 + length ps \<le> length d" by simp
    from loop_total [OF srv valid s this] obtain d' wl
      where "loop srv term db sleep 0 ps d w0 = (Inr d', wl)" by blast
    with 1(3) obtain t where "r1 = Inr t" by (auto split: if_splits)
    with 1(4) have "r = Inr t" by simp
    with run that show ?thesis by simp
  qed
qed

lemma get_df_overwrite_forgets:
  "get_df srv term db ps True sleep (w\<lparr>files := (files w)(cache_file_name term db := old)\<rparr>) =
   get_df srv term db ps True sleep w"
  by (simp add: get_df_def Let_def to_csv_def read_csv_def path_exists_def)

lemma loop_key_error:
  "service_ok srv \<Longrightarrow> 0 \<le> s \<Longrightarrow> i \<le> length d \<Longrightarrow> length d < i + length ps \<Longrightarrow>
   list_all valid_period (take (length d - i) ps) \<Longrightarrow>
   fst (loop srv term db s i ps d w) = Inl (KeyError (length d))"
proof (induction ps arbitrary: i d w)
  case Nil
  then show ?case by simp
next
  case (Cons p ps)
  obtain y m where p: "p = (y, m)" by (cases p)
  show ?case
  proof (cases "length d \<le> i")
    case True
    with Cons.prems(3) have "i = length d" by simp
    then show ?thesis unfolding p by simp
  next
    case False
    then have lt: "i < length d" by simp
    then have split: "length d - i = Suc (length d - Suc i)" by simp
    from Cons.prems(5) have v: "valid_period (y, m)" "list_all valid_period (take (length d - Suc i) ps)"
      unfolding p split by simp_all
    from lt Cons.prems(4) have r: "Suc i \<le> length d" "length d < Suc i + length ps" by simp_all
    from Cons.prems(1) obtain c where c: "srv (queries (trace w)) (q_format term y m db) = Inr c"
      unfolding service_ok_def by blast
    show ?thesis
    proof (cases "0 \<le> count (d ! i)")
      case True
      with Cons.IH [OF Cons.prems(1,2) r v(2), of w] lt show ?thesis
        unfolding p by simp
    next
      case nres: False
      let ?d2 = "d[i := (d ! i)\<lparr>count := int c, date := Date y m 1\<rparr>]"
      have "Suc i \<le> length ?d2" "length ?d2 < Suc i + length ps"
        "list_all valid_period (take (length ?d2 - Suc i) ps)"
        using r v(2) by simp_all
      from Cons.IH [OF Cons.prems(1,2) this] nres lt c Cons.prems(2) datetime_date_valid [OF v(1)]
      show ?thesis unfolding p by (simp add: Let_def)
    qed
  qed
qed

lemma loop_queries_prefix:
  "loop srv term db s i ps d w = (r, w') \<Longrightarrow>
   \<exists>rest. queries (trace w) @ pending_queries term db ps (drop i d) = queries (trace w') @ rest"
proof (induction ps arbitrary: i d w)
  case Nil
  then show ?case by simp
next
  case (Cons p ps)
  obtain y m where p: "p = (y, m)" by (cases p)
  let ?q = "q_format term y m db"
  consider (key) "length d \<le> i" "w' = w"
    | (skip) "i < length d" "resolved (d ! i)" "loop srv term db s (Suc i) ps d w = (r, w')"
    | (fail) "i < length d" "\<not> resolved (d ! i)" "w' = w\<lparr>trace := trace w @ [Query ?q]\<rparr>"
    | (go) c where "i < length d" "\<not> resolved (d ! i)"
        "loop srv term db s (Suc i) ps (d[i := \<lparr>date = Date y m 1, count = int c\<rparr>])
           (w\<lparr>trace := trace w @ [Query ?q, Sleep s]\<rparr>) = (r, w')"
    using Cons.prems unfolding p
    by (auto simp: Let_def resolved_def row_update_both split: if_splits sum.splits
        dest!: datetime_date_first)
  then show ?case
  proof cases
    case key
    then show ?thesis by simp
  next
    case skip
    from Cons.IH [OF skip(3)] skip(1,2) show ?thesis
      unfolding p by (simp add: pending_queries_step del: pending_queries.simps)
  next
    case fail
    then show ?thesis
      unfolding p by (simp add: pending_queries_step queries_append del: pending_queries.simps)
  next
    case go
    from Cons.IH [OF go(3)] go(1,2) show ?thesis
      unfolding p by (simp add: pending_queries_step queries_append del: pending_queries.simps)
  qed
qed

lemmas run_eval = get_df_def Let_def cache_file_name_def path_exists_def to_csv_def read_csv_def
  datetime_date_def days_in_month_def

section \<open>Idempotence of the cached fetch\<close>

text \<open>
  Claim C1.  Once a call of \<^verbatim>\<open>get_df\<close> without \<^verbatim>\<open>overwrite\<close> has returned a table,
  a second call with the same arguments, started in the world the first call left,
  returns the same table and sends no search to the service: the only thing it does
  is write the cache file again, with the content it already has.  This holds for
  every term, database and period list, whatever the service answers.
\<close>

theorem get_df_idempotent:
  assumes first: "get_df srv term db ps False sleep w = (Inr t1, w1)"
  shows "get_df srv term db ps False sleep w1 =
           (Inr t1, w1\<lparr>trace := trace w1 @ [Write (cache_file_name term db) t1]\<rparr>) \<and>
         queries (trace (snd (get_df srv term db ps False sleep w1))) = queries (trace w1)"
proof (cases rule: get_df_run [OF first])
  case (1 d w0 r1 wl)
  let ?cf = "cache_file_name term db"
  note run1 = 1(3)
  from 1(4) have r1: "r1 = Inr t1" and w1: "w1 = to_csv ?cf t1 wl" by (auto split: sum.splits)
  have file1: "files w1 ?cf = Some t1" unfolding w1 by (rule files_to_csv)
  have covered: "0 + k < length t1 \<and> resolved (t1 ! (0 + k))"
    if nres: "\<not> list_all resolved t1" and k: "k < length ps" for k
  proof -
    from run1 r1 nres have "loop srv term db sleep 0 ps d w0 = (Inr t1, wl)"
      by (auto split: if_splits)
    from loop_resolves [OF this k] show ?thesis .
  qed
  obtain r2 w2 where second: "get_df srv term db ps False sleep w1 = (r2, w2)"
    by (cases "get_df srv term db ps False sleep w1") blast
  have "r2 = Inr t1 \<and> w2 = to_csv ?cf t1 w1"
  proof (cases rule: get_df_run [OF second])
    case (1 d2 w02 r12 w12)
    from 1(2) file1 have w02: "w02 = w1" by simp
    with 1(1) file1 have d2: "d2 = t1" by simp
    have "(r12, w12) = (Inr t1, w1)"
    proof (cases "list_all resolved t1")
      case True
      with 1(3) show ?thesis unfolding d2 w02 by simp
    next
      case False
      have "loop srv term db sleep 0 ps t1 w1 = (Inr t1, w1)"
        by (rule loop_skip) (rule covered [OF False])
      with 1(3) False show ?thesis unfolding d2 w02 by simp
    qed
    with 1(4) show ?thesis by simp
  qed
  with second to_csv_same [OF file1]
  have eq: "get_df srv term db ps False sleep w1 = (Inr t1, w1\<lparr>trace := trace w1 @ [Write ?cf t1]\<rparr>)"
    by simp
  show ?thesis unfolding eq by (simp add: queries_append)
qed


theorem get_df_idempotent_witness:
  "fst (get_df (\<lambda>h q. Inr 7) ''python'' ''astronomy'' [(1991, 2), (1991, 3)] False (1 / 10)
          \<lparr>files = Map.empty, trace = []\<rparr>)
     = Inr [\<lparr>date = Date 1991 2 1, count = 7\<rparr>, \<lparr>date = Date 1991 3 1, count = 7\<rparr>] \<and>
   fst (get_df (\<lambda>h q. Inr 7) ''python'' ''astronomy'' [(1991, 2), (1991, 3)] False (1 / 10)
     (snd (get_df (\<lambda>h q. Inr 7) ''python'' ''astronomy'' [(1991, 2), (1991, 3)] False (1 / 10)
          \<lparr>files = Map.empty, trace = []\<rparr>)))
     = Inr [\<lparr>date = Date 1991 2 1, count = 7\<rparr>, \<lparr>date = Date 1991 3 1, count = 7\<rparr>] \<and>
   queries (trace (snd (get_df (\<lambda>h q. Inr 7) ''python'' ''astronomy'' [(1991, 2), (1991, 3)] False (1 / 10)
     (snd (get_df (\<lambda>h q. Inr 7) ''python'' ''astronomy'' [(1991, 2), (1991, 3)] False (1 / 10)
          \<lparr>files = Map.empty, trace = []\<rparr>)))))
     = queries (trace (snd (get_df (\<lambda>h q. Inr 7) ''python'' ''astronomy'' [(1991, 2), (1991, 3)] False (1 / 10)
          \<lparr>files = Map.empty, trace = []\<rparr>)))"
proof -
  let ?run = "get_df (\<lambda>h q. Inr 7) ''python'' ''astronomy'' [(1991, 2), (1991, 3)] False (1 / 10)
          \<lparr>files = Map.empty, trace = []\<rparr>"
  let ?t = "[\<lparr>date = Date 1991 2 1, count = 7\<rparr>, \<lparr>date = Date 1991 3 1, count = 7\<rparr>]"
  have h: "fst ?run = Inr ?t"
    by (simp add: run_eval)
  then have "?run = (Inr ?t, snd ?run)"
    by (simp add: prod_eq_iff)
  note again = get_df_idempotent [OF this]
  from again have "fst (get_df (\<lambda>h q. Inr 7) ''python'' ''astronomy'' [(1991, 2), (1991, 3)] False (1 / 10)
     (snd ?run)) = Inr ?t"
    by (simp only: fst_conv)
  with h again show ?thesis by blast
qed

section \<open>Resuming from a partly resolved cache\<close>

text \<open>
  Claim C2.  Let the cache file hold \<open>n\<close> records, one per requested period, of which
  \<open>k\<close> are resolved.  With a service that answers, valid periods and a non-negative
  delay, \<^verbatim>\<open>get_df\<close> without \<^verbatim>\<open>overwrite\<close> returns a table, sends exactly the queries
  of the pending records, in period order, which are \<open>n - k\<close> queries, and every record
  that was resolved in the cache is returned as it was cached.
\<close>

theorem get_df_resume:
  assumes cache: "files w (cache_file_name term db) = Some rows"
    and len: "length rows = length ps"
    and k: "length (filter resolved rows) = k"
    and valid: "list_all valid_period ps" and s: "0 \<le> sleep" and srv: "service_ok srv"
  shows "\<exists>tbl w'. get_df srv term db ps False sleep w = (Inr tbl, w') \<and>
           queries (trace w') = queries (trace w) @ pending_queries term db ps rows \<and>
           length (pending_queries term db ps rows) = length rows - k \<and>
           length tbl = length rows \<and>
           (\<forall>i<length rows. resolved (rows ! i) \<longrightarrow> tbl ! i = rows ! i)"
proof -
  from cache len have "\<And>rows'. files w (cache_file_name term db) = Some rows' \<Longrightarrow> \<not> False \<Longrightarrow> length ps \<le> length rows'"
    by auto
  from get_df_total [OF valid s srv this] obtain tbl w'
    where run: "get_df srv term db ps False sleep w = (Inr tbl, w')" by blast
  from pending_queries_length [of ps rows "term" db] len k
  have count: "length (pending_queries term db ps rows) = length rows - k" by simp
  show ?thesis
  proof (cases rule: get_df_run [OF run])
    case (1 d w0 r1 w1)
    from 1(2) cache have w0: "w0 = w" by simp
    with 1(1) cache have d: "d = rows" by simp
    from 1(4) have r1: "r1 = Inr tbl" and w': "w' = to_csv (cache_file_name term db) tbl w1"
      by (auto split: sum.splits)
    show ?thesis
    proof (cases "list_all resolved rows")
      case True
      with 1(3) have "tbl = rows" "w1 = w" unfolding d w0 r1 by simp_all
      with run count True show ?thesis
        unfolding w' by (simp add: queries_to_csv pending_queries_resolved)
    next
      case False
      with 1(3) have l: "loop srv term db sleep 0 ps rows w = (Inr tbl, w1)"
        unfolding d w0 r1 by simp
      from loop_queries [OF l]
      have q: "queries (trace w') = queries (trace w) @ pending_queries term db ps rows"
        unfolding w' by (simp add: queries_to_csv)
      have keep: "tbl ! i = rows ! i" if "i < length rows" "resolved (rows ! i)" for i
        using loop_at [OF l, of i] that len by simp
      from run q count loop_length [OF l] keep show ?thesis by blast
    qed
  qed
qed

theorem get_df_resume_witness:
  "\<exists>tbl w'. get_df (\<lambda>h q. Inr 7) ''matlab'' ''astronomy'' [(1991, 2), (1991, 3), (1991, 4)] False (1 / 10)
      \<lparr>files = [''matlab_astronomy.csv'' \<mapsto>
                  [\<lparr>date = Date 1991 2 1, count = 3\<rparr>, blank_row, \<lparr>date = Date 1991 4 1, count = 0\<rparr>]],
        trace = []\<rparr> = (Inr tbl, w') \<and>
     queries (trace w') = [q_format ''matlab'' 1991 3 ''astronomy''] \<and>
     length tbl = 3 \<and> tbl ! 0 = \<lparr>date = Date 1991 2 1, count = 3\<rparr> \<and>
     tbl ! 2 = \<lparr>date = Date 1991 4 1, count = 0\<rparr>"
proof -
  let ?rows = "[\<lparr>date = Date 1991 2 1, count = 3\<rparr>, blank_row, \<lparr>date = Date 1991 4 1, count = 0\<rparr>]"
  let ?w = "\<lparr>files = [''matlab_astronomy.csv'' \<mapsto> ?rows], trace = []\<rparr>"
  have a: "files ?w (cache_file_name ''matlab'' ''astronomy'') = Some ?rows"
    by (simp add: cache_file_name_def)
  have b: "length ?rows = length [(1991, 2), (1991, 3), (1991, 4 :: int)]" by simp
  have c: "length (filter resolved ?rows) = 2" by (simp add: resolved_def blank_row_def)
  have d: "list_all valid_period [(1991, 2), (1991, 3), (1991, 4)]" by simp
  have e: "(0 :: real) \<le> 1 / 10" by simp
  have f: "service_ok (\<lambda>h q. Inr 7)" by (simp add: service_ok_def)
  from get_df_resume [OF a b c d e f] obtain tbl w' where
    run: "get_df (\<lambda>h q. Inr 7) ''matlab'' ''astronomy'' [(1991, 2), (1991, 3), (1991, 4)] False (1 / 10) ?w
            = (Inr tbl, w')" and
    q: "queries (trace w') = queries (trace ?w) @
          pending_queries ''matlab'' ''astronomy'' [(1991, 2), (1991, 3), (1991, 4)] ?rows" and
    len: "length tbl = length ?rows" and
    keep: "\<forall>i<length ?rows. resolved (?rows ! i) \<longrightarrow> tbl ! i = ?rows ! i"
    by blast
  from keep have "tbl ! 0 = ?rows ! 0" "tbl ! 2 = ?rows ! 2"
    by (simp_all add: resolved_def)
  with run q len show ?thesis
    by (simp add: resolved_def blank_row_def)
qed

section \<open>Fetching into a fresh cache\<close>

text \<open>
  Claim C3.  When there is no cache file, or \<^verbatim>\<open>overwrite\<close> is set, then for every
  non-empty list of valid periods, a non-negative delay and a service that answers,
  \<^verbatim>\<open>get_df\<close> returns a table with one row per period, in period order: row \<open>i\<close> has
  a count that is not negative and the date of the first day of period \<open>i\<close>.
  The cache file has to be one the program can create, which the term and the
  database decide: its name is assumed to be a writable path.  The years are those
  \<^verbatim>\<open>datetime.date\<close> accepts, 1 to 9999, with \<^verbatim>\<open>pd.to_datetime\<close> as in pandas 3;
  under a pandas before 3 the table is returned only for years from 1678 to 2261.
\<close>

theorem get_df_fresh_table:
  assumes fresh: "files w (cache_file_name term db) = None \<or> overwrite"
    and writable: "writable_path (cache_file_name term db)"
    and ne: "ps \<noteq> []"
    and valid: "list_all valid_period ps" and s: "0 \<le> sleep" and srv: "service_ok srv"
  shows "\<exists>tbl w'. get_df srv term db ps overwrite sleep w = (Inr tbl, w') \<and>
           length tbl = length ps \<and>
           (\<forall>i<length ps. 0 \<le> count (tbl ! i) \<and>
                           date (tbl ! i) = Date (fst (ps ! i)) (snd (ps ! i)) 1)"
proof -
  from fresh have "\<And>rows. files w (cache_file_name term db) = Some rows \<Longrightarrow> \<not> overwrite \<Longrightarrow> length ps \<le> length rows"
    by auto
  from get_df_total [OF valid s srv this] obtain tbl w'
    where run: "get_df srv term db ps overwrite sleep w = (Inr tbl, w')" by blast
  show ?thesis
  proof (cases rule: get_df_run [OF run])
    case (1 d w0 r1 w1)
    from 1(2) fresh have d: "d = replicate (length ps) blank_row" by simp
    with ne have "\<not> list_all resolved d" by (simp add: list_all_resolved_blank)
    with 1(3) have l: "loop srv term db sleep 0 ps d w0 = (r1, w1)" by simp
    from 1(4) have r1: "r1 = Inr tbl" by (auto split: sum.splits)
    note l = l [unfolded r1]
    from loop_length [OF l] d have len: "length tbl = length ps" by simp
    have "0 \<le> count (tbl ! i) \<and> date (tbl ! i) = Date (fst (ps ! i)) (snd (ps ! i)) 1"
      if i: "i < length ps" for i
    proof -
      from i d have "\<not> resolved (d ! (0 + i))" by (simp add: resolved_blank)
      with loop_at [OF l i] obtain c
        where "tbl ! (0 + i) = \<lparr>date = Date (fst (ps ! i)) (snd (ps ! i)) 1, count = int c\<rparr>"
        by blast
      then show ?thesis by simp
    qed
    with run len show ?thesis by blast
  qed
qed

theorem get_df_fresh_table_witness:
  "(files \<lparr>files = Map.empty, trace = []\<rparr> (cache_file_name ''idl'' ''astronomy'') = None \<or> False) \<and>
   writable_path (cache_file_name ''idl'' ''astronomy'') \<and>
   ([(2017, 12), (2018, 1)] :: (int \<times> int) list) \<noteq> [] \<and> list_all valid_period [(2017, 12), (2018, 1)] \<and>
   (0 :: real) \<le> 1 / 10 \<and> service_ok (\<lambda>h q. Inr (length h)) \<and>
   (\<exists>tbl w'. get_df (\<lambda>h q. Inr (length h)) ''idl'' ''astronomy'' [(2017, 12), (2018, 1)] False (1 / 10)
                \<lparr>files = Map.empty, trace = []\<rparr> = (Inr tbl, w') \<and>
      length tbl = 2 \<and>
      0 \<le> count (tbl ! 0) \<and> date (tbl ! 0) = Date 2017 12 1 \<and>
      0 \<le> count (tbl ! 1) \<and> date (tbl ! 1) = Date 2018 1 1)"
proof -
  let ?ps = "[(2017, 12), (2018, 1)] :: (int \<times> int) list"
  have a: "files \<lparr>files = Map.empty, trace = []\<rparr> (cache_file_name ''idl'' ''astronomy'') = None \<or> False"
    by simp
  have b: "?ps \<noteq> []" by simp
  have c: "list_all valid_period ?ps" by simp
  have d: "(0 :: real) \<le> 1 / 10" by simp
  have e: "service_ok (\<lambda>h q. Inr (length h))" by (simp add: service_ok_def)
  have f: "writable_path (cache_file_name ''idl'' ''astronomy'')"
    by (simp add: writable_path_def cache_file_name_def)
  from get_df_fresh_table [OF a f b c d e] show ?thesis
  proof (elim exE conjE)
    fix tbl w'
    assume run: "get_df (\<lambda>h q. Inr (length h)) ''idl'' ''astronomy'' ?ps False (1 / 10)
                \<lparr>files = Map.empty, trace = []\<rparr> = (Inr tbl, w')"
      and len: "length tbl = length ?ps"
      and each: "\<forall>i<length ?ps. 0 \<le> count (tbl ! i) \<and>
         date (tbl ! i) = Date (fst (?ps ! i)) (snd (?ps ! i)) 1"
    from each have vals: "0 \<le> count (tbl ! 0) \<and> date (tbl ! 0) = Date 2017 12 1 \<and>
      0 \<le> count (tbl ! 1) \<and> date (tbl ! 1) = Date 2018 1 1"
      by (simp add: All_less_Suc)
    from len have len2: "length tbl = 2" by simp
    from run len2 vals
    have "\<exists>tbl w'. get_df (\<lambda>h q. Inr (length h)) ''idl'' ''astronomy'' ?ps False (1 / 10)
                \<lparr>files = Map.empty, trace = []\<rparr> = (Inr tbl, w') \<and>
      length tbl = 2 \<and>
      0 \<le> count (tbl ! 0) \<and> date (tbl ! 0) = Date 2017 12 1 \<and>
      0 \<le> count (tbl ! 1) \<and> date (tbl ! 1) = Date 2018 1 1"
      by (intro exI conjI) (assumption | elim conjE)+
    with a f b c d e show ?thesis by (intro conjI)
  qed
qed

section \<open>Overwriting an existing cache\<close>

text \<open>
  Claim C4.  With \<^verbatim>\<open>overwrite\<close> set, whatever the cache file held before (the outcome
  is the same for every prior content \<open>old\<close> of the file, also for none), \<^verbatim>\<open>get_df\<close>
  sends exactly one query per period, in period order, and every record of the table
  it returns and stores carries the count the service gave for that period's query
  and the first day of that period's month.  The service is assumed to answer, the
  periods to be valid and the delay not to be negative.  The cache file has to be
  one the program can create when it is not there, which the term and the database
  decide: its name is assumed to be a writable path.  The years are those
  \<^verbatim>\<open>datetime.date\<close> accepts, 1 to 9999, with \<^verbatim>\<open>pd.to_datetime\<close> as in pandas 3;
  under a pandas before 3 the table is returned only for years from 1678 to 2261.
\<close>

theorem get_df_overwrite:
  assumes writable: "writable_path (cache_file_name term db)"
    and valid: "list_all valid_period ps" and s: "0 \<le> sleep" and srv: "service_ok srv"
  shows "\<exists>tbl w'. get_df srv term db ps True sleep w = (Inr tbl, w') \<and>
           (\<forall>old. get_df srv term db ps True sleep
                    (w\<lparr>files := (files w)(cache_file_name term db := old)\<rparr>) = (Inr tbl, w')) \<and>
           queries (trace w') = queries (trace w) @ map (\<lambda>(y, m). q_format term y m db) ps \<and>
           length tbl = length ps \<and>
           files w' (cache_file_name term db) = Some tbl \<and>
           (\<forall>i<length ps. \<exists>c.
              srv (queries (trace w) @ map (\<lambda>(y, m). q_format term y m db) (take i ps))
                  (q_format term (fst (ps ! i)) (snd (ps ! i)) db) = Inr c \<and>
              tbl ! i = \<lparr>date = Date (fst (ps ! i)) (snd (ps ! i)) 1, count = int c\<rparr>)"
proof -
  let ?cf = "cache_file_name term db"
  let ?qs = "map (\<lambda>(y, m). q_format term y m db)"
  have "\<And>rows. files w ?cf = Some rows \<Longrightarrow> \<not> True \<Longrightarrow> length ps \<le> length rows"
    by simp
  from get_df_total [OF valid s srv this] obtain tbl w'
    where run: "get_df srv term db ps True sleep w = (Inr tbl, w')" by blast
  show ?thesis
  proof (cases rule: get_df_run [OF run])
    case (1 d w0 r1 w1)
    from 1(2) have d: "d = replicate (length ps) blank_row" and w0: "w0 = to_csv ?cf d w" by simp_all
    from 1(4) have r1: "r1 = Inr tbl" and w': "w' = to_csv ?cf tbl w1"
      by (auto split: sum.splits)
    have stored: "files w' ?cf = Some tbl" unfolding w' by (rule files_to_csv)
    have forget: "\<forall>old. get_df srv term db ps True sleep (w\<lparr>files := (files w)(?cf := old)\<rparr>) = (Inr tbl, w')"
      using run by (simp add: get_df_overwrite_forgets)
    show ?thesis
    proof (cases "ps = []")
      case True
      with 1(3) d have "tbl = []" "w1 = w0" unfolding r1 by simp_all
      with run forget stored True show ?thesis
        unfolding w' w0 by (simp add: queries_to_csv)
    next
      case False
      with d have "\<not> list_all resolved d" by (simp add: list_all_resolved_blank)
      with 1(3) have l: "loop srv term db sleep 0 ps d w0 = (Inr tbl, w1)" unfolding r1 by simp
      from loop_queries [OF l]
      have q: "queries (trace w') = queries (trace w) @ ?qs ps"
        unfolding w' w0 d by (simp add: queries_to_csv pending_queries_blank)
      from loop_length [OF l] d have len: "length tbl = length ps" by simp
      have each: "\<exists>c. srv (queries (trace w) @ ?qs (take i ps))
                  (q_format term (fst (ps ! i)) (snd (ps ! i)) db) = Inr c \<and>
              tbl ! i = \<lparr>date = Date (fst (ps ! i)) (snd (ps ! i)) 1, count = int c\<rparr>"
        if i: "i < length ps" for i
      proof -
        from i d have "\<not> resolved (d ! (0 + i))" by (simp add: resolved_blank)
        moreover have "pending_queries term db (take i ps) (drop 0 d) = ?qs (take i ps)"
          unfolding d by (simp add: pending_queries_blank)
        ultimately show ?thesis
          using loop_at [OF l i] unfolding w0 by (simp add: queries_to_csv)
      qed
      from run forget q len stored each show ?thesis by blast
    qed
  qed
qed

theorem get_df_overwrite_witness:
  "writable_path (cache_file_name ''python'' ''astronomy'') \<and>
   list_all valid_period [(1991, 2), (1991, 3)] \<and> (0 :: real) \<le> 1 / 10 \<and>
   service_ok (\<lambda>h q. Inr (length h)) \<and>
   (\<exists>tbl w'. get_df (\<lambda>h q. Inr (length h)) ''python'' ''astronomy'' [(1991, 2), (1991, 3)] True (1 / 10)
      \<lparr>files = [''python_astronomy.csv'' \<mapsto> [\<lparr>date = Date 1991 2 1, count = 40\<rparr>]], trace = []\<rparr>
        = (Inr tbl, w') \<and>
      queries (trace w') =
        [q_format ''python'' 1991 2 ''astronomy'', q_format ''python'' 1991 3 ''astronomy''] \<and>
      length tbl = 2 \<and>
      files w' ''python_astronomy.csv'' = Some tbl)"
proof -
  let ?w = "\<lparr>files = [''python_astronomy.csv'' \<mapsto> [\<lparr>date = Date 1991 2 1, count = 40\<rparr>]], trace = []\<rparr>"
  have a: "list_all valid_period [(1991, 2), (1991, 3)]" by simp
  have b: "(0 :: real) \<le> 1 / 10" by simp
  have c: "service_ok (\<lambda>h q. Inr (length h))" by (simp add: service_ok_def)
  have p: "writable_path (cache_file_name ''python'' ''astronomy'')"
    by (simp add: writable_path_def cache_file_name_def)
  from get_df_overwrite [OF p a b c, of ?w]
  have "\<exists>tbl w'. get_df (\<lambda>h q. Inr (length h)) ''python'' ''astronomy'' [(1991, 2), (1991, 3)] True (1 / 10) ?w
        = (Inr tbl, w') \<and>
      queries (trace w') =
        [q_format ''python'' 1991 2 ''astronomy'', q_format ''python'' 1991 3 ''astronomy''] \<and>
      length tbl = 2 \<and>
      files w' ''python_astronomy.csv'' = Some tbl"
    by (elim exE conjE, intro exI conjI) (simp_all add: cache_file_name_def)
  with p a b c show ?thesis by (intro conjI)
qed

section \<open>The period grid\<close>

lemma sorted_product:
  "sorted_wrt (<) xs \<Longrightarrow> sorted_wrt (<) ys \<Longrightarrow> sorted_wrt chrono (List.product xs ys)"
proof (induction xs)
  case Nil
  show ?case by simp
next
  case (Cons x xs)
  from Cons.prems have above: "\<forall>x'\<in>set xs. x < x'" and rest: "sorted_wrt (<) xs" by simp_all
  have "sorted_wrt chrono (map (Pair x) ys)"
    using Cons.prems(2) by (simp add: sorted_wrt_map)
  moreover have "sorted_wrt chrono (List.product xs ys)"
    using Cons.IH [OF rest Cons.prems(2)] .
  moreover have "\<forall>p\<in>set (map (Pair x) ys). \<forall>q\<in>set (List.product xs ys). chrono p q"
    using above by auto
  ultimately show ?case by (simp add: sorted_wrt_append)
qed

lemma dates_sorted: "sorted_wrt chrono dates"
  unfolding dates_def years_def months_def range_py_def
  by (intro sorted_wrt_drop sorted_wrt_filter sorted_product sorted_wrt_upto)

lemma dates_length: "length dates = 325"
  unfolding dates_def years_def months_def range_py_def by code_simp

lemma dates_first: "hd dates = (1991, 2)"
  unfolding dates_def years_def months_def range_py_def by code_simp

lemma dates_last: "last dates = (2018, 2)"
  unfolding dates_def years_def months_def range_py_def by code_simp

text \<open>
  Claim C5.  The grid the notebook builds, years 1991 to 2018 and months 1 to 12, kept
  while before March 2018 and with its first pair dropped, is in chronological order,
  starts at (1991, 2), ends at (2018, 2) and has 12 * (2018 - 1991) + 2 - 1 = 325 pairs.
\<close>

theorem dates_grid:
  "sorted_wrt chrono dates \<and> dates \<noteq> [] \<and> hd dates = (1991, 2) \<and> last dates = (2018, 2) \<and>
   length dates = 12 * (2018 - 1991) + 2 - 1 \<and> ndates = 325"
proof -
  from dates_length have "dates \<noteq> []" by auto
  with dates_sorted dates_first dates_last dates_length show ?thesis
    by (simp add: ndates_def)
qed

section \<open>Shape of the query string\<close>

lemma digit_char_props:
  assumes "k < 10"
  shows "is_digit (digit_char k)" and "digit_val (digit_char k) = k" and "digit_char k \<noteq> CHR ''-''"
proof -
  from assms have "k = 0 \<or> k = 1 \<or> k = 2 \<or> k = 3 \<or> k = 4 \<or> k = 5 \<or> k = 6 \<or> k = 7 \<or> k = 8 \<or> k = 9"
    by arith
  then show "is_digit (digit_char k)" and "digit_val (digit_char k) = k" and "digit_char k \<noteq> CHR ''-''"
    by (auto simp: digit_char_def is_digit_def digit_val_def)
qed

lemma dec_value_snoc: "dec_value (s @ [c]) = 10 * dec_value s + digit_val c"
  by (simp add: dec_value_def)

lemma str_nat_digits: "list_all is_digit (str_nat n) \<and> str_nat n \<noteq> [] \<and> dec_value (str_nat n) = n"
proof (induction n rule: str_nat.induct)
  case (1 n)
  show ?case
  proof (cases "n < 10")
    case True
    then show ?thesis
      by (simp add: str_nat.simps [of n] digit_char_props dec_value_def)
  next
    case False
    have "n mod 10 < 10" by simp
    with 1 [OF False] False show ?thesis
      by (simp add: str_nat.simps [of n] digit_char_props dec_value_snoc)
  qed
qed

lemma digit_val_zero: "is_digit c \<Longrightarrow> digit_val c = 0 \<Longrightarrow> c = CHR ''0''"
  by (auto simp: is_digit_def digit_val_def)

lemma digit_val_inj: "is_digit c \<Longrightarrow> is_digit e \<Longrightarrow> digit_val c = digit_val e \<Longrightarrow> c = e"
  by (auto simp: is_digit_def digit_val_def)

lemma digit_val_less: "is_digit c \<Longrightarrow> digit_val c < 10"
  by (auto simp: is_digit_def digit_val_def)

lemma str_nat_no_leading_zero: "hd (str_nat n) \<noteq> CHR ''0'' \<or> str_nat n = ''0''"
proof (induction n rule: str_nat.induct)
  case (1 n)
  show ?case
  proof (cases "n < 10")
    case True
    have "n = 0" if "digit_char n = CHR ''0''"
    proof -
      from that have "digit_val (digit_char n) = digit_val (CHR ''0'')" by simp
      with True show ?thesis by (simp add: digit_char_props) (simp add: digit_val_def)
    qed
    with True show ?thesis
      by (auto simp add: str_nat.simps [of n] digit_char_def)
  next
    case False
    note ne = str_nat_digits [of "n div 10"]
    have "str_nat (n div 10) \<noteq> ''0''"
    proof
      assume "str_nat (n div 10) = ''0''"
      with ne have "n div 10 = dec_value ''0''" by simp
      with False show False by (simp add: dec_value_def digit_val_def)
    qed
    with 1 [OF False] have "hd (str_nat (n div 10)) \<noteq> CHR ''0''" by simp
    with ne False show ?thesis
      by (simp add: str_nat.simps [of n])
  qed
qed

lemma decimal_numeral_str_nat: "decimal_numeral (str_nat n) n"
  using str_nat_digits [of n] str_nat_no_leading_zero [of n]
  by (simp add: decimal_numeral_def)

lemma signed_decimal_format_d: "signed_decimal (format_d y) y"
  by (simp add: signed_decimal_def format_d_def decimal_numeral_str_nat)

text \<open>A numeral is determined by its number: two numerals of one number are equal.\<close>

lemma dec_value_zero_digits:
  "list_all is_digit ds \<Longrightarrow> dec_value ds = 0 \<Longrightarrow> ds \<noteq> [] \<Longrightarrow> hd ds = CHR ''0''"
proof (induction ds rule: rev_induct)
  case Nil
  then show ?case by simp
next
  case (snoc c ds)
  from snoc.prems have z: "dec_value ds = 0" "digit_val c = 0" and dg: "list_all is_digit ds" "is_digit c"
    by (simp_all add: dec_value_snoc)
  show ?case
  proof (cases "ds = []")
    case True
    with digit_val_zero [OF dg(2) z(2)] show ?thesis by simp
  next
    case False
    with snoc.IH [OF dg(1) z(1)] show ?thesis by simp
  qed
qed

lemma base10_split:
  fixes A B c e :: nat
  shows "c < 10 \<Longrightarrow> e < 10 \<Longrightarrow> 10 * A + c = 10 * B + e \<Longrightarrow> c = e \<and> A = B"
  by arith

lemma decimal_numeral_unique:
  "decimal_numeral a n \<Longrightarrow> decimal_numeral b n \<Longrightarrow> a = b"
proof (induction a arbitrary: b n rule: rev_induct)
  case Nil
  then show ?case by (simp add: decimal_numeral_def)
next
  case (snoc c a')
  from snoc.prems(2) obtain e b' where b: "b = b' @ [e]"
    by (cases b rule: rev_cases) (auto simp: decimal_numeral_def)
  from snoc.prems(1) have da: "list_all is_digit a'" "is_digit c"
    and va: "10 * dec_value a' + digit_val c = n"
    and la: "hd (a' @ [c]) \<noteq> CHR ''0'' \<or> a' @ [c] = ''0''"
    by (simp_all add: decimal_numeral_def dec_value_snoc)
  from snoc.prems(2) have db: "list_all is_digit b'" "is_digit e"
    and vb: "10 * dec_value b' + digit_val e = n"
    and lb: "hd (b' @ [e]) \<noteq> CHR ''0'' \<or> b' @ [e] = ''0''"
    unfolding b by (simp_all add: decimal_numeral_def dec_value_snoc)
  from va vb have "10 * dec_value a' + digit_val c = 10 * dec_value b' + digit_val e" by simp
  from base10_split [OF digit_val_less [OF da(2)] digit_val_less [OF db(2)] this]
  have last_eq: "digit_val c = digit_val e" and front: "dec_value a' = dec_value b'"
    by simp_all
  from digit_val_inj [OF da(2) db(2) last_eq] have ce: "c = e" .
  have empty_side: "y = []"
    if "dec_value y = 0" "list_all is_digit y" "hd (y @ [f]) \<noteq> CHR ''0'' \<or> y @ [f] = ''0''"
    for y :: string and f
  proof (rule ccontr)
    assume ne: "y \<noteq> []"
    with dec_value_zero_digits [OF that(2) that(1)] have "hd (y @ [f]) = CHR ''0''" by simp
    with that(3) have "y @ [f] = ''0''" by simp
    with ne show False by (cases y) simp_all
  qed
  show ?case
  proof (cases "a' = []")
    case True
    then have "dec_value b' = 0" using front by (simp add: dec_value_def)
    from empty_side [OF this db(1) lb] True ce show ?thesis unfolding b by simp
  next
    case False
    have bne: "b' \<noteq> []"
    proof
      assume "b' = []"
      then have "dec_value a' = 0" using front by (simp add: dec_value_def)
      from empty_side [OF this da(1) la] False show False by simp
    qed
    from False la have "hd a' \<noteq> CHR ''0''" by (cases a') auto
    with False da(1) have na: "decimal_numeral a' (dec_value a')"
      by (simp add: decimal_numeral_def)
    from bne lb have "hd b' \<noteq> CHR ''0''" by (cases b') auto
    with bne db(1) front have nb: "decimal_numeral b' (dec_value a')"
      by (simp add: decimal_numeral_def)
    from snoc.IH [OF na nb] ce show ?thesis unfolding b by simp
  qed
qed

lemma signed_decimal_unique:
  "signed_decimal a y \<Longrightarrow> signed_decimal b y \<Longrightarrow> a = b"
proof (cases "y < 0")
  case True
  assume "signed_decimal a y" "signed_decimal b y"
  with True have a: "a \<noteq> []" "hd a = CHR ''-''" "decimal_numeral (tl a) (nat (- y))"
    and b: "b \<noteq> []" "hd b = CHR ''-''" "decimal_numeral (tl b) (nat (- y))"
    by (simp_all add: signed_decimal_def)
  from decimal_numeral_unique [OF a(3) b(3)] a(1,2) b(1,2) show ?thesis
    by (cases a; cases b) simp_all
next
  case False
  assume "signed_decimal a y" "signed_decimal b y"
  with False show ?thesis
    by (auto simp: signed_decimal_def intro: decimal_numeral_unique)
qed

lemma format_02d_two:
  assumes "0 \<le> m" "m \<le> 99"
  shows "length (format_02d m) = 2 \<and> list_all is_digit (format_02d m) \<and> dec_value (format_02d m) = nat m"
proof (cases "m < 10")
  case True
  with assms have small: "nat m < 10" by simp
  then have "str_nat (nat m) = [digit_char (nat m)]"
    by (simp add: str_nat.simps [of "nat m"])
  with assms have "format_02d m = [CHR ''0'', digit_char (nat m)]"
    by (simp add: format_02d_def zfill_def)
  with small show ?thesis
    by (simp add: digit_char_props dec_value_def) (simp add: is_digit_def digit_val_def)
next
  case False
  with assms have d: "nat m div 10 < 10" "nat m mod 10 < 10" "\<not> nat m < 10" by simp_all
  then have "str_nat (nat m) = [digit_char (nat m div 10), digit_char (nat m mod 10)]"
    by (simp add: str_nat.simps [of "nat m"] str_nat.simps [of "nat m div 10"])
  with assms have "format_02d m = [digit_char (nat m div 10), digit_char (nat m mod 10)]"
    by (simp add: format_02d_def zfill_def)
  with d show ?thesis
    by (simp add: digit_char_props dec_value_def)
qed

text \<open>
  Claim C8, as the code has it.  The query is \<^verbatim>\<open>full:"<term>"\<close>, then two spaces,
  then \<^verbatim>\<open>pubdate:<year>-<month>\<close>, one space and \<^verbatim>\<open>database:"<database>"\<close>.  The year
  field is the decimal numeral of the year and nothing else: digits only, no padding
  and no leading zero, a minus sign in front exactly for a negative year; no other
  string is such a numeral of the year.  For a month from 0 to 99, so for every
  calendar month, the month field is exactly two decimal digits whose value is the
  month.
\<close>

theorem q_format_shape:
  assumes "0 \<le> m" and "m \<le> 99"
  shows \<open>\<exists>yy mm. q_format term y m db =
            ''full:"'' @ term @ ''"  pubdate:'' @ yy @ ''-'' @ mm @ '' database:"'' @ db @ ''"'' \<and>
          signed_decimal yy y \<and> (\<forall>s. signed_decimal s y \<longrightarrow> s = yy) \<and>
          length mm = 2 \<and> list_all is_digit mm \<and> dec_value mm = nat m\<close>
proof (intro exI conjI)
  show \<open>q_format term y m db =
            ''full:"'' @ term @ ''"  pubdate:'' @ format_d y @ ''-'' @ format_02d m @ '' database:"'' @ db @ ''"''\<close>
    by (simp add: q_format_def)
  show "signed_decimal (format_d y) y" by (rule signed_decimal_format_d)
  show "\<forall>s. signed_decimal s y \<longrightarrow> s = format_d y"
    using signed_decimal_unique [OF _ signed_decimal_format_d] by blast
  from format_02d_two [OF assms]
  show "length (format_02d m) = 2" "list_all is_digit (format_02d m)" "dec_value (format_02d m) = nat m"
    by simp_all
qed

theorem q_format_shape_witness:
  \<open>(0 :: int) \<le> 2 \<and> (2 :: int) \<le> 99 \<and>
   q_format ''python'' 1991 2 ''astronomy'' = ''full:"python"  pubdate:1991-02 database:"astronomy"'' \<and>
   signed_decimal ''1991'' 1991 \<and> \<not> signed_decimal ''01991'' 1991 \<and> \<not> signed_decimal '' 1991'' 1991 \<and>
   (\<exists>yy mm. q_format ''python'' 1991 2 ''astronomy'' =
            ''full:"'' @ ''python'' @ ''"  pubdate:'' @ yy @ ''-'' @ mm @ '' database:"'' @ ''astronomy'' @ ''"'' \<and>
          signed_decimal yy 1991 \<and> (\<forall>s. signed_decimal s 1991 \<longrightarrow> s = yy) \<and>
          length mm = 2 \<and> list_all is_digit mm \<and> dec_value mm = nat 2)\<close>
proof -
  have a: "(0 :: int) \<le> 2" and b: "(2 :: int) \<le> 99" by simp_all
  have c: \<open>q_format ''python'' 1991 2 ''astronomy'' = ''full:"python"  pubdate:1991-02 database:"astronomy"''\<close>
    by (simp add: q_format_def format_d_def format_02d_def zfill_def str_nat.simps digit_char_def)
  have d: "signed_decimal ''1991'' 1991" "\<not> signed_decimal ''01991'' 1991" "\<not> signed_decimal '' 1991'' 1991"
    by (simp_all add: signed_decimal_def decimal_numeral_def is_digit_def dec_value_def digit_val_def)
  note s = q_format_shape [OF a b, of "''python''" 1991 "''astronomy''"]
  show ?thesis by (intro conjI) (rule a b c d s)+
qed

text \<open>
  The shape with a single space between the full-text clause and \<^verbatim>\<open>pubdate\<close> is not
  what is sent: the template has two spaces there.
\<close>

theorem q_format_single_space_counterexample:
  \<open>q_format ''python'' 1991 2 ''astronomy'' \<noteq> ''full:"python" pubdate:1991-02 database:"astronomy"''\<close>
  by (simp add: q_format_def)

section \<open>A query that fails during a run\<close>

text \<open>
  Claim C6, as the code has it.  \<^verbatim>\<open>get_df\<close> catches nothing and writes the cache file
  only after the loop.  When a run ends in an exception, the files are exactly as the
  run loaded them: the cache file as it was found, or all pending when it was just
  created.  So no record of another period is damaged and the record whose query
  failed is still pending, but neither is anything kept of what the same run had
  already resolved: every query the run sent, the failed one included, is the query
  of a record that is still pending in the file afterwards.
\<close>

theorem get_df_failure_keeps_loaded_cache:
  assumes run: "get_df srv term db ps ow s w = (Inl e, w')"
  shows "files w' =
           (if files w (cache_file_name term db) = None \<or> ow
            then (files w)(cache_file_name term db \<mapsto> replicate (length ps) blank_row)
            else files w) \<and>
         (\<exists>d rest. files w' (cache_file_name term db) = Some d \<and>
            queries (trace w) @ pending_queries term db ps d = queries (trace w') @ rest)"
proof (cases rule: get_df_run [OF run])
  case (1 d w0 r1 w1)
  let ?cf = "cache_file_name term db"
  from 1(4) have r1: "r1 = Inl e" and w': "w' = w1" by (auto split: sum.splits)
  with 1(3) have l: "loop srv term db s 0 ps d w0 = (Inl e, w1)" by (auto split: if_splits)
  from loop_files [of srv "term" db s 0 ps d w0] l have same: "files w' = files w0"
    unfolding w' by simp
  from 1(2) have f0: "files w0 =
           (if files w ?cf = None \<or> ow then (files w)(?cf \<mapsto> replicate (length ps) blank_row)
            else files w)"
    by (auto simp: to_csv_def)
  from 1(2) have q0: "queries (trace w0) = queries (trace w)"
    by (auto simp: queries_to_csv split: if_splits)
  from loop_queries_prefix [OF l] obtain rest
    where "queries (trace w0) @ pending_queries term db ps d = queries (trace w') @ rest"
    unfolding w' by auto
  with q0 1(1) same have "\<exists>d rest. files w' ?cf = Some d \<and>
            queries (trace w) @ pending_queries term db ps d = queries (trace w') @ rest"
    by auto
  with same f0 show ?thesis by simp
qed

theorem get_df_failure_keeps_loaded_cache_witness:
  "fst (get_df failing_after_first ''python'' ''astronomy'' [(1991, 2), (1991, 3)] False (1 / 10)
          \<lparr>files = Map.empty, trace = []\<rparr>) = Inl APIResponseError \<and>
   files (snd (get_df failing_after_first ''python'' ''astronomy'' [(1991, 2), (1991, 3)] False (1 / 10)
          \<lparr>files = Map.empty, trace = []\<rparr>))
     = [cache_file_name ''python'' ''astronomy'' \<mapsto> [blank_row, blank_row]]"
proof -
  let ?run = "get_df failing_after_first ''python'' ''astronomy'' [(1991, 2), (1991, 3)] False (1 / 10)
          \<lparr>files = Map.empty, trace = []\<rparr>"
  have h: "fst ?run = Inl APIResponseError"
    by (simp add: run_eval failing_after_first_def)
  then have "?run = (Inl APIResponseError, snd ?run)"
    by (simp add: prod_eq_iff)
  from get_df_failure_keeps_loaded_cache [OF this]
  have "files (snd ?run) = [cache_file_name ''python'' ''astronomy'' \<mapsto> [blank_row, blank_row]]"
    by simp
  with h show ?thesis by (intro conjI)
qed

text \<open>
  The run below gets a count of 5 for February 1991, fails on March 1991, and leaves
  both records pending in the file: the count it had resolved is not persisted.
\<close>

theorem get_df_failure_loses_run_counterexample:
  "failing_after_first [] (q_format ''python'' 1991 2 ''astronomy'') = Inr 5 \<and>
   fst (get_df failing_after_first ''python'' ''astronomy'' [(1991, 2), (1991, 3)] False (1 / 10)
          \<lparr>files = Map.empty, trace = []\<rparr>) = Inl APIResponseError \<and>
   files (snd (get_df failing_after_first ''python'' ''astronomy'' [(1991, 2), (1991, 3)] False (1 / 10)
          \<lparr>files = Map.empty, trace = []\<rparr>)) ''python_astronomy.csv''
     = Some [\<lparr>date = Date 1984 1 1, count = - 1\<rparr>, \<lparr>date = Date 1984 1 1, count = - 1\<rparr>]"
  by (simp add: run_eval failing_after_first_def)

section \<open>A cache whose length differs from the period list\<close>

text \<open>
  Claim C7, as the code has it.  \<^verbatim>\<open>get_df\<close> never compares the number of stored
  records with the number of periods.  With a stored table of another length than the
  period list: if every stored record is resolved, the stored table is returned as it
  is and no query is sent; if the stored table is shorter than the period list and has
  a pending record, the run raises, and what it raises is \<^verbatim>\<open>KeyError\<close> at the first
  index the stored table lacks when nothing fails before that index is reached (the
  service answers, the periods up to there are valid, the delay is not negative); and
  whenever a table is returned, it has the stored number of rows, not the requested
  one.
\<close>

theorem get_df_length_mismatch:
  assumes cache: "files w (cache_file_name term db) = Some rows"
    and mismatch: "length rows \<noteq> length ps"
    and run: "get_df srv term db ps False s w = (r, w')"
  shows "(list_all resolved rows \<longrightarrow> r = Inr rows \<and> queries (trace w') = queries (trace w)) \<and>
         (length rows < length ps \<and> \<not> list_all resolved rows \<longrightarrow> (\<exists>e. r = Inl e)) \<and>
         (length rows < length ps \<and> \<not> list_all resolved rows \<and> service_ok srv \<and>
            list_all valid_period (take (length rows) ps) \<and> 0 \<le> s \<longrightarrow>
              r = Inl (KeyError (length rows))) \<and>
         (\<forall>t. r = Inr t \<longrightarrow> length t = length rows)"
proof (cases rule: get_df_run [OF run])
  case (1 d w0 r1 w1)
  from 1(2) cache have w0: "w0 = w" by simp
  with 1(1) cache have d: "d = rows" by simp
  note body = 1(3) [unfolded d w0] and fin = 1(4)
  have hit: "r = Inr rows \<and> queries (trace w') = queries (trace w)" if "list_all resolved rows"
  proof -
    from that body have "r1 = Inr rows" "w1 = w" by simp_all
    with fin show ?thesis by (simp add: queries_to_csv)
  qed
  have short: "\<exists>e. r = Inl e" if "length rows < length ps" "\<not> list_all resolved rows"
  proof (cases r1)
    case (Inl e)
    with fin show ?thesis by simp
  next
    case (Inr t)
    with that(2) body have "loop srv term db s 0 ps rows w = (Inr t, w1)" by simp
    moreover from that(1) have "ps \<noteq> []" by auto
    ultimately have "0 + length ps \<le> length rows" by (rule loop_in_range)
    with that(1) show ?thesis by simp
  qed
  have key: "r = Inl (KeyError (length rows))"
    if "length rows < length ps" "\<not> list_all resolved rows" "service_ok srv"
      "list_all valid_period (take (length rows) ps)" "0 \<le> s"
  proof -
    from that(1,4) have "0 \<le> length rows" "length rows < 0 + length ps"
      "list_all valid_period (take (length rows - 0) ps)" by simp_all
    from loop_key_error [OF that(3,5) this, of "term" db w]
    have "fst (loop srv term db s 0 ps rows w) = Inl (KeyError (length rows))" .
    with that(2) body have "r1 = Inl (KeyError (length rows))" by simp
    with fin show ?thesis by simp
  qed
  have len: "length t = length rows" if "r = Inr t" for t
  proof (cases "list_all resolved rows")
    case True
    with hit that show ?thesis by simp
  next
    case False
    from that fin have "r1 = Inr t" by (auto split: sum.splits)
    with False body have "loop srv term db s 0 ps rows w = (Inr t, w1)" by simp
    then show ?thesis by (rule loop_length)
  qed
  from hit short key len show ?thesis by blast
qed

theorem get_df_length_mismatch_witness:
  "fst (get_df (answering 7) ''idl'' ''astronomy'' [(1991, 2), (1991, 3)] False (1 / 10)
     \<lparr>files = [''idl_astronomy.csv'' \<mapsto>
                 [\<lparr>date = Date 2000 1 1, count = 4\<rparr>, \<lparr>date = Date 2000 2 1, count = 5\<rparr>,
                  \<lparr>date = Date 2000 3 1, count = 6\<rparr>]],
       trace = []\<rparr>)
     = Inr [\<lparr>date = Date 2000 1 1, count = 4\<rparr>, \<lparr>date = Date 2000 2 1, count = 5\<rparr>,
            \<lparr>date = Date 2000 3 1, count = 6\<rparr>] \<and>
   fst (get_df (answering 7) ''idl'' ''astronomy'' [(1991, 2), (1991, 3)] False (1 / 10)
     \<lparr>files = [''idl_astronomy.csv'' \<mapsto> [blank_row]], trace = []\<rparr>) = Inl (KeyError 1)"
proof -
  let ?long = "[\<lparr>date = Date 2000 1 1, count = 4\<rparr>, \<lparr>date = Date 2000 2 1, count = 5\<rparr>,
                  \<lparr>date = Date 2000 3 1, count = 6\<rparr>]"
  let ?ps = "[(1991, 2), (1991, 3)] :: (int \<times> int) list"
  let ?w1 = "\<lparr>files = [''idl_astronomy.csv'' \<mapsto> ?long], trace = []\<rparr>"
  let ?w2 = "\<lparr>files = [''idl_astronomy.csv'' \<mapsto> [blank_row]], trace = []\<rparr>"
  let ?run1 = "get_df (answering 7) ''idl'' ''astronomy'' ?ps False (1 / 10) ?w1"
  let ?run2 = "get_df (answering 7) ''idl'' ''astronomy'' ?ps False (1 / 10) ?w2"
  have c1: "files ?w1 (cache_file_name ''idl'' ''astronomy'') = Some ?long"
    by (simp add: cache_file_name_def)
  have m1: "length ?long \<noteq> length ?ps" by simp
  have r1: "?run1 = (fst ?run1, snd ?run1)" by simp
  have all1: "list_all resolved ?long" by (simp add: resolved_def)
  from get_df_length_mismatch [OF c1 m1 r1] all1 have a: "fst ?run1 = Inr ?long" by blast
  have c2: "files ?w2 (cache_file_name ''idl'' ''astronomy'') = Some [blank_row]"
    by (simp add: cache_file_name_def)
  have m2: "length [blank_row] \<noteq> length ?ps" by simp
  have r2: "?run2 = (fst ?run2, snd ?run2)" by simp
  have some2: "length [blank_row] < length ?ps \<and> \<not> list_all resolved [blank_row] \<and>
      service_ok (answering 7) \<and> list_all valid_period (take (length [blank_row]) ?ps) \<and>
      (0 :: real) \<le> 1 / 10"
    by (simp add: resolved_blank service_ok_def answering_def)
  from get_df_length_mismatch [OF c2 m2 r2] some2
  have "fst ?run2 = Inl (KeyError (length [blank_row]))" by blast
  then have b: "fst ?run2 = Inl (KeyError 1)" by simp
  from a b show ?thesis by (intro conjI)
qed

text \<open>
  Three stored records for the first quarter of 2000 against two requested periods of
  1991: the call returns the three stored records, sends nothing and raises nothing.
\<close>

theorem get_df_length_mismatch_counterexample:
  "length [\<lparr>date = Date 2000 1 1, count = 4\<rparr>, \<lparr>date = Date 2000 2 1, count = 5\<rparr>,
           \<lparr>date = Date 2000 3 1, count = 6\<rparr>]
     \<noteq> length ([(1991, 2), (1991, 3)] :: (int \<times> int) list) \<and>
   fst (get_df (answering 7) ''python'' ''astronomy'' [(1991, 2), (1991, 3)] False (1 / 10)
     \<lparr>files = [''python_astronomy.csv'' \<mapsto>
                 [\<lparr>date = Date 2000 1 1, count = 4\<rparr>, \<lparr>date = Date 2000 2 1, count = 5\<rparr>,
                  \<lparr>date = Date 2000 3 1, count = 6\<rparr>]],
       trace = []\<rparr>)
     = Inr [\<lparr>date = Date 2000 1 1, count = 4\<rparr>, \<lparr>date = Date 2000 2 1, count = 5\<rparr>,
            \<lparr>date = Date 2000 3 1, count = 6\<rparr>] \<and>
   queries (trace (snd (get_df (answering 7) ''python'' ''astronomy'' [(1991, 2), (1991, 3)] False (1 / 10)
     \<lparr>files = [''python_astronomy.csv'' \<mapsto>
                 [\<lparr>date = Date 2000 1 1, count = 4\<rparr>, \<lparr>date = Date 2000 2 1, count = 5\<rparr>,
                  \<lparr>date = Date 2000 3 1, count = 6\<rparr>]],
       trace = []\<rparr>))) = []"
  by (simp add: run_eval)

section \<open>The delay between searches\<close>

text \<open>
  Claim C9.  In the events of one call of \<^verbatim>\<open>get_df\<close>, whatever its outcome, every
  search after the first is preceded, since the search before it, by a sleep of at
  least the delay asked for; and a call that sends no search does not sleep.  Time is
  read off the order of the search and sleep events; the clock itself is not modelled.
\<close>

theorem get_df_delay_between_queries:
  assumes run: "get_df srv term db ps ow s w = (r, w')"
  shows "\<exists>new. trace w' = trace w @ new \<and> spaced s True new \<and>
           (queries new = [] \<longrightarrow> sleeps new = [])"
proof (cases rule: get_df_run [OF run])
  case (1 d w0 r1 w1)
  let ?cf = "cache_file_name term db"
  from 1(2) obtain pre where pre: "trace w0 = trace w @ pre" "queries pre = []" "sleeps pre = []"
    "\<And>ok es. spaced s ok (pre @ es) = spaced s ok es"
    by (cases "files w ?cf = None \<or> ow") (auto simp: to_csv_def)
  obtain mid where mid: "trace w1 = trace w0 @ mid" "spaced s True mid"
    "length (sleeps mid) \<le> length (queries mid)"
  proof (cases "list_all resolved d")
    case True
    with 1(3) have "trace w1 = trace w0 @ []" by simp
    with that [of "[]"] show ?thesis by simp
  next
    case False
    with 1(3) have "loop srv term db s 0 ps d w0 = (r1, w1)" by simp
    from loop_trace [OF this] that show ?thesis by blast
  qed
  from 1(4) obtain post where post: "trace w' = trace w1 @ post" "queries post = []" "sleeps post = []"
    "\<And>ok es. spaced s ok (es @ post) = spaced s ok es"
    by (cases r1) (auto simp: to_csv_def spaced_snoc_Write)
  show ?thesis
  proof (intro exI conjI)
    show "trace w' = trace w @ (pre @ mid @ post)"
      using pre(1) mid(1) post(1) by simp
    show "spaced s True (pre @ mid @ post)"
      using pre(4) [of True "mid @ post"] post(4) [of True mid] mid(2) by simp
    show "queries (pre @ mid @ post) = [] \<longrightarrow> sleeps (pre @ mid @ post) = []"
      using pre(2,3) post(2,3) mid(3) by (auto simp add: queries_append sleeps_append)
  qed
qed

theorem get_df_delay_between_queries_witness:
  "\<exists>new. trace (snd (get_df (answering 7) ''python'' ''astronomy'' [(1991, 2), (1991, 3)] False (1 / 10)
                        \<lparr>files = Map.empty, trace = []\<rparr>))
           = trace \<lparr>files = Map.empty, trace = []\<rparr> @ new \<and>
         spaced (1 / 10) True new \<and> queries new \<noteq> [] \<and> sleeps new = [1 / 10, 1 / 10]"
proof -
  let ?w = "\<lparr>files = Map.empty, trace = []\<rparr>"
  let ?run = "get_df (answering 7) ''python'' ''astronomy'' [(1991, 2), (1991, 3)] False (1 / 10) ?w"
  have "?run = (fst ?run, snd ?run)" by simp
  from get_df_delay_between_queries [OF this] obtain new where
    new: "trace (snd ?run) = trace ?w @ new" "spaced (1 / 10) True new"
    by blast
  have tr: "trace (snd ?run) =
          [Write ''python_astronomy.csv'' [blank_row, blank_row],
           Query (q_format ''python'' 1991 2 ''astronomy''), Sleep (1 / 10),
           Query (q_format ''python'' 1991 3 ''astronomy''), Sleep (1 / 10),
           Write ''python_astronomy.csv''
             [\<lparr>date = Date 1991 2 1, count = 7\<rparr>, \<lparr>date = Date 1991 3 1, count = 7\<rparr>]]"
    by (simp add: run_eval answering_def blank_row_def)
  from new(1) have "new = trace (snd ?run)" by simp
  then have "queries new \<noteq> []" "sleeps new = [1 / 10, 1 / 10]"
    unfolding tr by simp_all
  with new show ?thesis by blast
qed

section \<open>The cache file is written on every return\<close>

text \<open>
  Claim C10.  Every call of \<^verbatim>\<open>get_df\<close> that returns a table ends by writing that
  table to the cache file.  In particular, on a full cache hit (the file exists, every
  record is resolved, no \<^verbatim>\<open>overwrite\<close>) the call sends no search, and all it does is
  write the file again with the rows it loaded.
\<close>

theorem get_df_always_rewrites:
  "(get_df srv term db ps ow s w = (Inr t, w') \<longrightarrow>
      (\<exists>pre. trace w' = trace w @ pre @ [Write (cache_file_name term db) t]) \<and>
      files w' (cache_file_name term db) = Some t) \<and>
   (files w (cache_file_name term db) = Some rows \<and> list_all resolved rows \<longrightarrow>
      get_df srv term db ps False s w =
        (Inr rows, w\<lparr>trace := trace w @ [Write (cache_file_name term db) rows]\<rparr>))"
proof (intro conjI impI)
  let ?cf = "cache_file_name term db"
  assume run: "get_df srv term db ps ow s w = (Inr t, w')"
  show "\<exists>pre. trace w' = trace w @ pre @ [Write ?cf t]"
  proof (cases rule: get_df_run [OF run])
    case (1 d w0 r1 w1)
    from 1(4) have r1: "r1 = Inr t" and w': "w' = to_csv ?cf t w1" by (auto split: sum.splits)
    from 1(2) obtain pre where pre: "trace w0 = trace w @ pre"
      by (cases "files w ?cf = None \<or> ow") (auto simp: to_csv_def)
    obtain mid where mid: "trace w1 = trace w0 @ mid"
    proof (cases "list_all resolved d")
      case True
      with 1(3) that [of "[]"] show ?thesis by simp
    next
      case False
      with 1(3) have "loop srv term db s 0 ps d w0 = (r1, w1)" by simp
      from loop_trace [OF this] that show ?thesis by blast
    qed
    have "trace w' = trace w @ (pre @ mid) @ [Write ?cf t]"
      unfolding w' using pre mid by (simp add: to_csv_def)
    then show ?thesis by blast
  qed
  show "files w' ?cf = Some t"
  proof (cases rule: get_df_run [OF run])
    case (1 d w0 r1 w1)
    from 1(4) have "w' = to_csv ?cf t w1" by (auto split: sum.splits)
    then show ?thesis by (simp add: files_to_csv)
  qed
next
  let ?cf = "cache_file_name term db"
  assume hit: "files w ?cf = Some rows \<and> list_all resolved rows"
  obtain r w' where run: "get_df srv term db ps False s w = (r, w')"
    by (cases "get_df srv term db ps False s w") blast
  show "get_df srv term db ps False s w = (Inr rows, w\<lparr>trace := trace w @ [Write ?cf rows]\<rparr>)"
  proof (cases rule: get_df_run [OF run])
    case (1 d w0 r1 w1)
    from 1(2) hit have w0: "w0 = w" by simp
    with 1(1) hit have d: "d = rows" by simp
    from 1(3) hit have "r1 = Inr rows" "w1 = w" unfolding d w0 by simp_all
    with 1(4) have "r = Inr rows" "w' = to_csv ?cf rows w" by simp_all
    with run hit show ?thesis by (simp add: to_csv_same)
  qed
qed

theorem get_df_always_rewrites_witness:
  "get_df (answering 7) ''idl'' ''astronomy'' [(1991, 2)] False (1 / 10)
     \<lparr>files = [''idl_astronomy.csv'' \<mapsto> [\<lparr>date = Date 1991 2 1, count = 4\<rparr>]], trace = []\<rparr>
   = (Inr [\<lparr>date = Date 1991 2 1, count = 4\<rparr>],
      \<lparr>files = [''idl_astronomy.csv'' \<mapsto> [\<lparr>date = Date 1991 2 1, count = 4\<rparr>]],
        trace = [Write ''idl_astronomy.csv'' [\<lparr>date = Date 1991 2 1, count = 4\<rparr>]]\<rparr>)"
proof -
  let ?rows = "[\<lparr>date = Date 1991 2 1, count = 4\<rparr>]"
  let ?w = "\<lparr>files = [''idl_astronomy.csv'' \<mapsto> ?rows], trace = []\<rparr>"
  have hit: "files ?w (cache_file_name ''idl'' ''astronomy'') = Some ?rows \<and> list_all resolved ?rows"
    by (simp add: cache_file_name_def resolved_def)
  from get_df_always_rewrites
  have "files ?w (cache_file_name ''idl'' ''astronomy'') = Some ?rows \<and> list_all resolved ?rows \<longrightarrow>
        get_df (answering 7) ''idl'' ''astronomy'' [(1991, 2)] False (1 / 10) ?w =
        (Inr ?rows, ?w\<lparr>trace := trace ?w @ [Write (cache_file_name ''idl'' ''astronomy'') ?rows]\<rparr>)"
    by (rule conjunct2)
  with hit
  have "get_df (answering 7) ''idl'' ''astronomy'' [(1991, 2)] False (1 / 10) ?w =
        (Inr ?rows, ?w\<lparr>trace := trace ?w @ [Write (cache_file_name ''idl'' ''astronomy'') ?rows]\<rparr>)"
    by (rule rev_mp)
  then show ?thesis by (simp add: cache_file_name_def)
qed

end
